theory Spec2Isabelle
  imports Main "HOL-Library.Word" "HOL-Library.Multiset"
begin

section \<open>Data model of the interrupt controller simulation\<close>

text \<open>
  The source is \<^verbatim>\<open>Interrupt_Controller_Simulation.cpp\<close>. The enumeration
  \<^verbatim>\<open>enum Device { PRINTER = 1, MOUSE = 2, KEYBOARD = 3 }\<close> is a datatype; the
  numeric value behind each enumerator, which the scan compares with \<^verbatim>\<open>></\<close>, is
  \<open>dev_val\<close>.
\<close>

datatype Device = PRINTER | MOUSE | KEYBOARD

fun dev_val :: "Device \<Rightarrow> int" where
  "dev_val PRINTER = 1"
| "dev_val MOUSE = 2"
| "dev_val KEYBOARD = 3"

text \<open>
  \<^verbatim>\<open>struct InterruptEvent { Device dev; long long seq; time_point timestamp; }\<close>.
  The sequence number is a 64-bit two's complement integer, read with \<open>sint\<close> and
  compared with the signed order; the time stamp of the steady clock is a tick count.
\<close>

record InterruptEvent =
  dev :: Device
  seq :: "64 word"
  timestamp :: nat

text \<open>
  The globals guarded by \<^verbatim>\<open>mtx\<close>: the vector \<^verbatim>\<open>pending\<close>, the three mask
  flags and \<^verbatim>\<open>global_seq\<close>, together with the atomic flag \<^verbatim>\<open>running\<close>.
\<close>

record shared =
  pending :: "InterruptEvent list"
  running :: bool
  masked_keyboard :: bool
  masked_mouse :: bool
  masked_printer :: bool
  global_seq :: "64 word"

definition initial_shared :: shared where
  "initial_shared =
     \<lparr>pending = [], running = True, masked_keyboard = False, masked_mouse = False,
      masked_printer = False, global_seq = 0\<rparr>"

definition LLONG_MAX :: "64 word" where
  "LLONG_MAX = 0x7FFFFFFFFFFFFFFF"

section \<open>The arbiter's scan (controller\_thread, lines 118 to 134)\<close>

text \<open>
  The expression computed for \<^verbatim>\<open>is_masked\<close> inside both loops of the controller.
\<close>

definition is_masked :: "shared \<Rightarrow> Device \<Rightarrow> bool" where
  "is_masked s d =
     ((d = KEYBOARD \<and> masked_keyboard s) \<or>
      (d = MOUSE \<and> masked_mouse s) \<or>
      (d = PRINTER \<and> masked_printer s))"

text \<open>
  The loop bound is \<^verbatim>\<open>(int)pending.size()\<close>: the size is cut to 32 bits and read as
  a signed number.
\<close>

definition size_as_int :: "nat \<Rightarrow> int" where
  "size_as_int n = sint (word_of_nat n :: 32 word)"

text \<open>
  The loop carries \<^verbatim>\<open>best_idx\<close>, \<^verbatim>\<open>best_dev\<close> and \<^verbatim>\<open>best_seq\<close>. One
  execution of the loop body at index \<open>i\<close>:
\<close>

type_synonym best = "int \<times> Device \<times> 64 word"

definition scan_body :: "shared \<Rightarrow> nat \<Rightarrow> best \<Rightarrow> best" where
  "scan_body s i b =
     (case b of (best_idx, best_dev, best_seq) \<Rightarrow>
        let d = dev (pending s ! i) in
        if is_masked s d then b
        else if best_idx = - 1 \<or> dev_val (dev (pending s ! i)) > dev_val best_dev \<or>
                (dev (pending s ! i) = best_dev \<and> seq (pending s ! i) <s best_seq)
             then (int i, dev (pending s ! i), seq (pending s ! i))
             else b)"

text \<open>
  The \<^verbatim>\<open>for\<close> loop runs the body for \<open>i = 0, 1, ...\<close> below the bound, starting from
  \<^verbatim>\<open>best_idx = -1, best_dev = PRINTER, best_seq = LLONG_MAX\<close>. Every index it reads is
  below the size of the vector, see \<open>scan_bound_le_length\<close>.
\<close>

definition scan_from :: "shared \<Rightarrow> nat \<Rightarrow> best" where
  "scan_from s n = fold (scan_body s) [0 ..< n] (- 1, PRINTER, LLONG_MAX)"

definition scan_bound :: "shared \<Rightarrow> nat" where
  "scan_bound s = nat (size_as_int (length (pending s)))"

definition scan :: "shared \<Rightarrow> best" where
  "scan s = scan_from s (scan_bound s)"

definition best_idx_of :: "shared \<Rightarrow> int" where
  "best_idx_of s = fst (scan s)"

text \<open>\<^verbatim>\<open>pending.erase(pending.begin() + best_idx)\<close>.\<close>

definition erase_at :: "'a list \<Rightarrow> nat \<Rightarrow> 'a list" where
  "erase_at xs i = take i xs @ drop (Suc i) xs"

text \<open>
  Lines 118 to 157 as one operation on the shared state: the scan, then either nothing
  selected (\<open>None\<close>, the branch \<^verbatim>\<open>best_idx == -1\<close>) or the selected event together with
  the state after the erase.
\<close>

definition select_and_remove :: "shared \<Rightarrow> (InterruptEvent \<times> shared) option" where
  "select_and_remove s =
     (let best_idx = best_idx_of s in
      if best_idx = - 1 then None
      else Some (pending s ! nat best_idx,
                 s\<lparr>pending := erase_at (pending s) (nat best_idx)\<rparr>))"

text \<open>
  Repeated selecting and removing with no producer in between: the events in the order
  in which the arbiter takes them out of a given pending set. The recursion is on the
  number of passes; \<open>drain\<close> allows one pass for each pending event.
\<close>

fun drain_n :: "nat \<Rightarrow> shared \<Rightarrow> InterruptEvent list" where
  "drain_n 0 s = []"
| "drain_n (Suc k) s =
     (case select_and_remove s of
        None \<Rightarrow> []
      | Some (ev, s') \<Rightarrow> ev # drain_n k s')"

definition drain :: "shared \<Rightarrow> InterruptEvent list" where
  "drain s = drain_n (length (pending s)) s"

text \<open>
  The order in which two events leave the pending set: the device with the higher value
  first, and on one device the smaller sequence number first.
\<close>

definition served_before :: "InterruptEvent \<Rightarrow> InterruptEvent \<Rightarrow> bool" where
  "served_before a b =
     (dev_val (dev a) > dev_val (dev b) \<or> (dev a = dev b \<and> seq a \<le>s seq b))"

definition unmasked_all :: "shared \<Rightarrow> bool" where
  "unmasked_all s = (\<not> masked_keyboard s \<and> \<not> masked_mouse s \<and> \<not> masked_printer s)"

section \<open>Effects: console output, synchronisation and accesses to the guarded globals\<close>

text \<open>
  Each operation returns, beside the new state, the list of its effects in program order.
  \<open>Touch\<close> records a statement that reads or writes one of the globals the mutex
  \<^verbatim>\<open>mtx\<close> is meant to guard; \<open>Lock_mtx\<close> and \<open>Unlock_mtx\<close> are the construction and
  destruction of a \<^verbatim>\<open>lock_guard\<close> or \<^verbatim>\<open>unique_lock\<close> on \<^verbatim>\<open>mtx\<close> (and
  \<^verbatim>\<open>ul.unlock()\<close>); \<open>Cv_wait\<close> and \<open>Cv_wait_for\<close> block on the condition
  variable, which releases the mutex.
\<close>

datatype access = Rd | Wr

datatype guarded = Pending_set | Mask_of Device | Global_seq

datatype action =
    Lock_mtx
  | Unlock_mtx
  | Touch access guarded
  | Cout string
  | Notify_one
  | Notify_all
  | Cv_wait
  | Cv_wait_for nat
  | Sleep_for nat
  | Append_log string

definition endl :: string where
  "endl = [CHR 0x0A]"

text \<open>
  Whether every access in a list of effects of one thread happens while that thread
  holds \<^verbatim>\<open>mtx\<close>; the first argument says whether it holds the mutex at the start.
\<close>

fun lock_held_at_accesses :: "bool \<Rightarrow> action list \<Rightarrow> bool" where
  "lock_held_at_accesses held [] = True"
| "lock_held_at_accesses held (Lock_mtx # as) = lock_held_at_accesses True as"
| "lock_held_at_accesses held (Unlock_mtx # as) = lock_held_at_accesses False as"
| "lock_held_at_accesses held (Cv_wait # as) = lock_held_at_accesses False as"
| "lock_held_at_accesses held (Cv_wait_for ms # as) = lock_held_at_accesses False as"
| "lock_held_at_accesses held (Touch rw g # as) = (held \<and> lock_held_at_accesses held as)"
| "lock_held_at_accesses held (a # as) = lock_held_at_accesses held as"


section \<open>device\_name and the log file\<close>

fun device_name :: "Device \<Rightarrow> string" where
  "device_name KEYBOARD = ''Keyboard''"
| "device_name MOUSE = ''Mouse''"
| "device_name PRINTER = ''Printer''"

text \<open>
  The file \<^verbatim>\<open>isr_log.txt\<close> as \<^verbatim>\<open>append_log\<close> sees it: whether
  \<^verbatim>\<open>ofstream f(log_filename, ios::app)\<close> succeeds in opening it, how many more bytes
  it takes (\<open>None\<close>: no limit; a full disk or a size limit gives \<open>Some n\<close>), and its
  contents. A write of more bytes than the file takes leaves the bytes that fit.
\<close>

record log_file =
  openable :: bool
  room :: "nat option"
  contents :: string

definition accepted :: "log_file \<Rightarrow> string \<Rightarrow> string" where
  "accepted f text = (case room f of None \<Rightarrow> text | Some n \<Rightarrow> take n text)"

definition file_write :: "string \<Rightarrow> log_file \<Rightarrow> log_file" where
  "file_write text f =
     f\<lparr>contents := contents f @ accepted f text,
       room := map_option (\<lambda>n. n - length (accepted f text)) (room f)\<rparr>"

text \<open>
  The part of \<^verbatim>\<open>std::ofstream\<close> that \<^verbatim>\<open>append_log\<close> uses. A stream carries the
  error bits of its state and the mask set by \<^verbatim>\<open>exceptions()\<close>; whenever a bit is set
  that the mask selects, the library throws \<^verbatim>\<open>ios_base::failure\<close>. A stream starts
  with no error bit and an empty mask, and \<^verbatim>\<open>append_log\<close> never changes the mask.
  The constructor sets \<^verbatim>\<open>failbit\<close> when the file cannot be opened; \<^verbatim>\<open>if (f)\<close>
  tests that neither bit is set; \<^verbatim>\<open><<\<close> on a stream with an error bit writes
  nothing and sets \<^verbatim>\<open>failbit\<close>, on a good stream it writes and sets \<^verbatim>\<open>badbit\<close>
  when not every byte was taken. Whether the bytes reach the file at the insertion or
  when the destructor closes the stream makes no difference to what is left in the file;
  the destructor does not throw.
\<close>

datatype exn = Ios_failure

record ofstream =
  failbit :: bool
  badbit :: bool
  exceptions_failbit :: bool
  exceptions_badbit :: bool

definition init_stream :: ofstream where
  "init_stream =
     \<lparr>failbit = False, badbit = False, exceptions_failbit = False, exceptions_badbit = False\<rparr>"

definition ios_clear :: "ofstream \<Rightarrow> exn + ofstream" where
  "ios_clear st =
     (if (failbit st \<and> exceptions_failbit st) \<or> (badbit st \<and> exceptions_badbit st)
      then Inl Ios_failure else Inr st)"

definition set_failbit :: "ofstream \<Rightarrow> exn + ofstream" where
  "set_failbit st = ios_clear (st\<lparr>failbit := True\<rparr>)"

definition set_badbit :: "ofstream \<Rightarrow> exn + ofstream" where
  "set_badbit st = ios_clear (st\<lparr>badbit := True\<rparr>)"

definition stream_ok :: "ofstream \<Rightarrow> bool" where
  "stream_ok st = (\<not> failbit st \<and> \<not> badbit st)"

definition ofstream_open :: "log_file \<Rightarrow> exn + ofstream" where
  "ofstream_open f = (if openable f then Inr init_stream else set_failbit init_stream)"

definition stream_insert :: "string \<Rightarrow> ofstream \<Rightarrow> log_file \<Rightarrow> exn + ofstream \<times> log_file" where
  "stream_insert text st f =
     (if stream_ok st
      then (if length (accepted f text) < length text
            then (case set_badbit st of
                    Inl e \<Rightarrow> Inl e
                  | Inr st' \<Rightarrow> Inr (st', file_write text f))
            else Inr (st, file_write text f))
      else (case set_failbit st of
              Inl e \<Rightarrow> Inl e
            | Inr st' \<Rightarrow> Inr (st', f)))"

text \<open>
  \<^verbatim>\<open>append_log\<close>, lines 74 to 80: open, test, insert the line, insert the newline.
  An exception of the library would leave the function (\<open>Inl\<close>).
\<close>

definition append_log :: "string \<Rightarrow> log_file \<Rightarrow> exn + log_file" where
  "append_log line f =
     (case ofstream_open f of
        Inl e \<Rightarrow> Inl e
      | Inr st \<Rightarrow>
          if stream_ok st
          then (case stream_insert line st f of
                  Inl e \<Rightarrow> Inl e
                | Inr (st1, f1) \<Rightarrow>
                    (case stream_insert [CHR 0x0A] st1 f1 of
                       Inl e \<Rightarrow> Inl e
                     | Inr (st2, f2) \<Rightarrow> Inr f2))
          else Inr f)"

text \<open>Decimal output of a \<^verbatim>\<open>long long\<close> and of a \<^verbatim>\<open>size_t\<close> by \<^verbatim>\<open><<\<close>.\<close>

fun dec_of_nat :: "nat \<Rightarrow> string" where
  "dec_of_nat n =
     (if n < 10 then [char_of (48 + n)]
      else dec_of_nat (n div 10) @ [char_of (48 + n mod 10)])"

definition dec_of_ll :: "64 word \<Rightarrow> string" where
  "dec_of_ll w =
     (if sint w < 0 then CHR ''-'' # dec_of_nat (nat (- sint w)) else dec_of_nat (nat (sint w)))"

section \<open>device\_thread: raising an interrupt (lines 102 to 107)\<close>

text \<open>
  \<^verbatim>\<open>{ lock_guard<mutex> lg(mtx); pending.push_back({dev, ++global_seq, now}); }\<close>
  followed by \<^verbatim>\<open>cv.notify_one()\<close>. The increment of the 64-bit counter wraps.
\<close>

definition new_event :: "Device \<Rightarrow> nat \<Rightarrow> shared \<Rightarrow> InterruptEvent" where
  "new_event d now s = \<lparr>dev = d, seq = global_seq s + 1, timestamp = now\<rparr>"

definition device_push :: "Device \<Rightarrow> nat \<Rightarrow> shared \<Rightarrow> shared \<times> action list" where
  "device_push d now s =
     (s\<lparr>global_seq := global_seq s + 1, pending := pending s @ [new_event d now s]\<rparr>,
      [Lock_mtx, Touch Wr Global_seq, Touch Wr Pending_set, Unlock_mtx, Notify_one])"

section \<open>controller\_thread\<close>

text \<open>
  The places where the controller can be between two of its atomic steps: before the test
  of \<^verbatim>\<open>while (running)\<close>; past that test, about to lock and wait or blocked inside
  \<^verbatim>\<open>cv.wait\<close>; blocked inside \<^verbatim>\<open>cv.wait_for\<close> after a pass that found every
  pending event masked; running the service routine of an extracted event with the mutex
  released; and after leaving the loop. \<^verbatim>\<open>controller_thread\<close> catches nothing, so
  an exception thrown inside it would end the thread and with it the program: the place
  \<open>Crashed\<close>.
\<close>

datatype ctrl_pc =
  Loop_top | At_wait | Timed_wait | Servicing InterruptEvent | Stopped | Crashed exn

text \<open>Line 113: the loop test.\<close>

definition loop_top_step :: "shared \<Rightarrow> ctrl_pc" where
  "loop_top_step s = (if running s then At_wait else Stopped)"

text \<open>The accesses of the scan: each iteration reads the vector and the mask of one device.\<close>

definition scan_accesses :: "shared \<Rightarrow> action list" where
  "scan_accesses s =
     concat (map (\<lambda>i. [Touch Rd Pending_set, Touch Rd (Mask_of (dev (pending s ! i)))])
                 [0 ..< scan_bound s])"

text \<open>Lines 140 to 148: one line of output for each pending event whose device is masked.\<close>

definition ignored_messages :: "shared \<Rightarrow> action list" where
  "ignored_messages s =
     concat (map (\<lambda>ev. [Touch Rd Pending_set, Touch Rd (Mask_of (dev ev))] @
                        (if is_masked s (dev ev)
                         then [Cout (device_name (dev ev) @ '' Interrupt Ignored (Masked)'' @ endl)]
                         else []))
                 (pending s))"

text \<open>
  Lines 114 to 157, entered with the mutex taken (or taken again on wake-up). The wait
  returns when \<^verbatim>\<open>!pending.empty() || !running\<close>; otherwise the controller stays
  blocked. \<^verbatim>\<open>running\<close> only ever changes from true to false, so reading it once for
  the predicate and for the test of line 116 loses nothing.
\<close>

definition at_wait_step :: "shared \<Rightarrow> ctrl_pc \<times> shared \<times> action list" where
  "at_wait_step s =
     (if pending s = [] \<and> running s
      then (At_wait, s, [Lock_mtx, Touch Rd Pending_set, Cv_wait])
      else if \<not> running s \<and> pending s = []
      then (Stopped, s, [Lock_mtx, Touch Rd Pending_set, Touch Rd Pending_set, Unlock_mtx])
      else
        (case select_and_remove s of
           None \<Rightarrow>
             (Timed_wait, s,
              [Lock_mtx, Touch Rd Pending_set] @
              (if running s then [] else [Touch Rd Pending_set]) @
              scan_accesses s @ ignored_messages s @ [Cv_wait_for 200])
         | Some (ev, s') \<Rightarrow>
             (Servicing ev, s',
              [Lock_mtx, Touch Rd Pending_set] @
              (if running s then [] else [Touch Rd Pending_set]) @
              scan_accesses s @ [Touch Rd Pending_set, Touch Wr Pending_set, Unlock_mtx])))"

text \<open>Lines 150 and 151: the timed wait ends, \<^verbatim>\<open>continue\<close> releases the mutex.\<close>

definition timed_wait_step :: "ctrl_pc \<times> action list" where
  "timed_wait_step = (Loop_top, [Lock_mtx, Unlock_mtx])"

text \<open>
  Lines 159 to 188: the service routine. The two formatted wall-clock times come from the
  environment. The arrow in the message is the three bytes of U+2192 in UTF-8.
\<close>

definition arrow :: string where
  "arrow = [CHR 0xE2, CHR 0x86, CHR 0x92]"

definition isr_delay :: "Device \<Rightarrow> nat" where
  "isr_delay d = (if d = KEYBOARD then 300 else if d = MOUSE then 500 else 800)"

definition start_line :: "InterruptEvent \<Rightarrow> string \<Rightarrow> string" where
  "start_line ev t =
     ''START | '' @ device_name (dev ev) @ '' | seq='' @ dec_of_ll (seq ev) @ '' | '' @ t"

definition end_line :: "InterruptEvent \<Rightarrow> string \<Rightarrow> string" where
  "end_line ev t =
     ''END   | '' @ device_name (dev ev) @ '' | seq='' @ dec_of_ll (seq ev) @ '' | '' @ t"

definition servicing_step ::
  "InterruptEvent \<Rightarrow> string \<Rightarrow> string \<Rightarrow> log_file \<Rightarrow> ctrl_pc \<times> log_file \<times> action list" where
  "servicing_step ev started done f =
     (let triggered =
            [Cout (device_name (dev ev) @ '' Interrupt Triggered '' @ arrow @
                   '' Handling ISR '' @ arrow @ '' ''),
             Cout (''Started at '' @ started @ endl),
             Append_log (start_line ev started)];
          completed =
            [Sleep_for (isr_delay (dev ev)),
             Cout (device_name (dev ev) @ '' ISR Completed at '' @ done @ endl),
             Append_log (end_line ev done)]
      in case append_log (start_line ev started) f of
           Inl e \<Rightarrow> (Crashed e, f, triggered)
         | Inr f1 \<Rightarrow>
             (case append_log (end_line ev done) f1 of
                Inl e \<Rightarrow> (Crashed e, f1, triggered @ completed)
              | Inr f2 \<Rightarrow> (Loop_top, f2, triggered @ completed)))"

text \<open>
  One step of the controller from any place. A stopped controller stays stopped, a crashed
  one crashed.
\<close>

fun controller_step ::
  "string \<Rightarrow> string \<Rightarrow> ctrl_pc \<Rightarrow> shared \<Rightarrow> log_file \<Rightarrow>
   ctrl_pc \<times> shared \<times> log_file \<times> action list" where
  "controller_step started done Loop_top s f = (loop_top_step s, s, f, [])"
| "controller_step started done At_wait s f =
     (case at_wait_step s of (pc', s', tr) \<Rightarrow> (pc', s', f, tr))"
| "controller_step started done Timed_wait s f =
     (fst timed_wait_step, s, f, snd timed_wait_step)"
| "controller_step started done (Servicing ev) s f =
     (case servicing_step ev started done f of (pc', f', tr) \<Rightarrow> (pc', s, f', tr))"
| "controller_step started done Stopped s f = (Stopped, s, f, [])"
| "controller_step started done (Crashed e) s f = (Crashed e, s, f, [])"

section \<open>user\_input\_thread: one command line (lines 196 to 228)\<close>

text \<open>
  \<^verbatim>\<open>ss >> token\<close> skips white space and then reads up to the next white space;
  it leaves the string empty when nothing is left to read.
\<close>

definition isspace :: "char \<Rightarrow> bool" where
  "isspace c = (c = CHR '' '' \<or> c = CHR 0x09 \<or> c = CHR 0x0A \<or> c = CHR 0x0B \<or>
                c = CHR 0x0C \<or> c = CHR 0x0D)"

definition extract_token :: "string \<Rightarrow> string \<times> string" where
  "extract_token ss =
     (let rest = dropWhile isspace ss
      in (takeWhile (\<lambda>c. \<not> isspace c) rest, dropWhile (\<lambda>c. \<not> isspace c) rest))"

definition unknown_device :: "action list" where
  "unknown_device = [Cout (''Unknown device. Use k/m/p.'' @ endl)]"

definition mask_command :: "string \<Rightarrow> shared \<Rightarrow> shared \<times> action list" where
  "mask_command which s =
     (if which = ''k''
      then (s\<lparr>masked_keyboard := True\<rparr>,
            [Touch Wr (Mask_of KEYBOARD), Cout (''Keyboard masked.'' @ endl), Notify_one])
      else if which = ''m''
      then (s\<lparr>masked_mouse := True\<rparr>,
            [Touch Wr (Mask_of MOUSE), Cout (''Mouse masked.'' @ endl), Notify_one])
      else if which = ''p''
      then (s\<lparr>masked_printer := True\<rparr>,
            [Touch Wr (Mask_of PRINTER), Cout (''Printer masked.'' @ endl), Notify_one])
      else (s, unknown_device @ [Notify_one]))"

definition unmask_command :: "string \<Rightarrow> shared \<Rightarrow> shared \<times> action list" where
  "unmask_command which s =
     (if which = ''k''
      then (s\<lparr>masked_keyboard := False\<rparr>,
            [Touch Wr (Mask_of KEYBOARD), Cout (''Keyboard unmasked.'' @ endl), Notify_one])
      else if which = ''m''
      then (s\<lparr>masked_mouse := False\<rparr>,
            [Touch Wr (Mask_of MOUSE), Cout (''Mouse unmasked.'' @ endl), Notify_one])
      else if which = ''p''
      then (s\<lparr>masked_printer := False\<rparr>,
            [Touch Wr (Mask_of PRINTER), Cout (''Printer unmasked.'' @ endl), Notify_one])
      else (s, unknown_device @ [Notify_one]))"

definition mask_text :: "bool \<Rightarrow> string" where
  "mask_text m = (if m then ''Masked'' else ''Unmasked'')"

definition status_command :: "shared \<Rightarrow> action list" where
  "status_command s =
     [Lock_mtx,
      Cout (''Status:'' @ [CHR 0x0A]),
      Touch Rd (Mask_of KEYBOARD),
      Cout (''  Keyboard: '' @ mask_text (masked_keyboard s) @ [CHR 0x0A]),
      Touch Rd (Mask_of MOUSE),
      Cout (''  Mouse:    '' @ mask_text (masked_mouse s) @ [CHR 0x0A]),
      Touch Rd (Mask_of PRINTER),
      Cout (''  Printer:  '' @ mask_text (masked_printer s) @ [CHR 0x0A]),
      Touch Rd Pending_set,
      Cout (''  Pending interrupts: '' @ dec_of_nat (length (pending s)) @ [CHR 0x0A]),
      Unlock_mtx]"

definition usage :: "action list" where
  "usage = [Cout (''Commands: mask k|m|p, unmask k|m|p, status, exit'' @ endl)]"

text \<open>
  The body of the loop for one line read by \<^verbatim>\<open>getline\<close>. The third component says
  whether the loop is left by \<^verbatim>\<open>break\<close>.
\<close>

definition user_command :: "string \<Rightarrow> shared \<Rightarrow> shared \<times> action list \<times> bool" where
  "user_command cmd s =
     (if cmd = [] then (s, [], False)
      else
        (case extract_token cmd of (token, ss) \<Rightarrow>
           if token = ''mask''
           then (case mask_command (fst (extract_token ss)) s of (s', tr) \<Rightarrow> (s', tr, False))
           else if token = ''unmask''
           then (case unmask_command (fst (extract_token ss)) s of (s', tr) \<Rightarrow> (s', tr, False))
           else if token = ''status'' then (s, status_command s, False)
           else if token = ''exit''
           then (s\<lparr>running := False\<rparr>, [Cout (''Exiting...'' @ endl), Notify_all], True)
           else (s, usage, False)))"

section \<open>The threads together\<close>

text \<open>
  The state of a run: the shared globals, the place of the controller, the log file,
  whether the user thread is still in its loop, and two history lists that the program
  does not keep: the events pushed so far, and the events extracted for service so far,
  each in order.
\<close>

record sys =
  sh :: shared
  pc :: ctrl_pc
  logf :: log_file
  user_alive :: bool
  inserted :: "InterruptEvent list"
  serviced :: "InterruptEvent list"

definition initial_sys :: "log_file \<Rightarrow> sys" where
  "initial_sys f =
     \<lparr>sh = initial_shared, pc = Loop_top, logf = f, user_alive = True,
      inserted = [], serviced = []\<rparr>"

text \<open>
  The atomic steps of a run: a device thread executes its push (it has passed its own
  tests of \<^verbatim>\<open>running\<close>), the controller takes one step, the user thread handles
  one line, or the input ends: \<^verbatim>\<open>getline\<close> fails, the user thread leaves its loop,
  and \<^verbatim>\<open>main\<close>, which was waiting for it, sets \<^verbatim>\<open>running\<close> to false
  (lines 251 to 254). No run reaches the place \<open>Crashed\<close>, see \<open>run_not_crashed\<close>,
  so the steps of the other threads are not cut off after it.
\<close>

datatype step =
  Device_push Device nat | Controller string string | User_line string | User_eof

fun exec :: "step \<Rightarrow> sys \<Rightarrow> sys" where
  "exec (Device_push d now) \<sigma> =
     \<sigma>\<lparr>sh := fst (device_push d now (sh \<sigma>)),
       inserted := inserted \<sigma> @ [new_event d now (sh \<sigma>)]\<rparr>"
| "exec (Controller started done) \<sigma> =
     (case controller_step started done (pc \<sigma>) (sh \<sigma>) (logf \<sigma>) of
        (pc', s', f', tr) \<Rightarrow>
          \<sigma>\<lparr>sh := s', pc := pc', logf := f',
            serviced := (case (pc \<sigma>, pc') of
                           (At_wait, Servicing ev) \<Rightarrow> serviced \<sigma> @ [ev]
                         | _ \<Rightarrow> serviced \<sigma>)\<rparr>)"
| "exec (User_line cmd) \<sigma> =
     (if user_alive \<sigma> \<and> running (sh \<sigma>)
      then (case user_command cmd (sh \<sigma>) of
              (s', tr, left) \<Rightarrow> \<sigma>\<lparr>sh := s', user_alive := \<not> left\<rparr>)
      else \<sigma>\<lparr>user_alive := False\<rparr>)"
| "exec User_eof \<sigma> = \<sigma>\<lparr>sh := (sh \<sigma>)\<lparr>running := False\<rparr>, user_alive := False\<rparr>"

definition run :: "step list \<Rightarrow> sys \<Rightarrow> sys" where
  "run steps \<sigma> = fold exec steps \<sigma>"

definition pushes :: "step list \<Rightarrow> nat" where
  "pushes steps = length (filter (\<lambda>a. case a of Device_push d now \<Rightarrow> True | _ \<Rightarrow> False) steps)"


definition seq_before :: "InterruptEvent \<Rightarrow> InterruptEvent \<Rightarrow> bool" where
  "seq_before a b = (seq a <s seq b)"

section \<open>Auxiliary definitions for the proofs\<close>

text \<open>
  What holds of \<^verbatim>\<open>best_idx\<close>, \<^verbatim>\<open>best_dev\<close> and \<^verbatim>\<open>best_seq\<close> after the
  scan has looked at the indices below \<open>n\<close>.
\<close>

definition scan_inv :: "shared \<Rightarrow> nat \<Rightarrow> best \<Rightarrow> bool" where
  "scan_inv s n b =
     (case b of (bi, bd, bs) \<Rightarrow>
        (if \<forall>j<n. is_masked s (dev (pending s ! j)) then bi = - 1
         else 0 \<le> bi \<and> nat bi < n \<and> \<not> is_masked s (dev (pending s ! nat bi)) \<and>
              bd = dev (pending s ! nat bi) \<and> bs = seq (pending s ! nat bi) \<and>
              (\<forall>j<n. \<not> is_masked s (dev (pending s ! j)) \<longrightarrow>
                  dev_val (dev (pending s ! j)) \<le> dev_val bd \<and>
                  (dev (pending s ! j) = bd \<longrightarrow> bs \<le>s seq (pending s ! j)))))"

text \<open>
  Scenario A of the specification: Printer (1), then Keyboard (2), nothing masked.
  Scenario B: Keyboard (1), Keyboard masked, then Mouse (2).
\<close>

definition scenario_A :: shared where
  "scenario_A =
     initial_shared\<lparr>pending := [\<lparr>dev = PRINTER, seq = 1, timestamp = 10\<rparr>,
                                \<lparr>dev = KEYBOARD, seq = 2, timestamp = 20\<rparr>],
                    global_seq := 2\<rparr>"

definition scenario_B :: shared where
  "scenario_B =
     initial_shared\<lparr>pending := [\<lparr>dev = KEYBOARD, seq = 1, timestamp = 10\<rparr>,
                                \<lparr>dev = MOUSE, seq = 2, timestamp = 20\<rparr>],
                    masked_keyboard := True, global_seq := 2\<rparr>"

text \<open>
  A log file that can be opened and written without limit, and one that holds a line
  \<^verbatim>\<open>x\<close> and takes two more bytes.
\<close>

definition example_log :: log_file where
  "example_log = \<lparr>openable = True, room = None, contents = []\<rparr>"

definition short_log :: log_file where
  "short_log = \<lparr>openable = True, room = Some 2, contents = [CHR ''x'', CHR 0x0A]\<rparr>"











text \<open>
  The balance of a run: every event pushed so far is either still pending or has been
  extracted for service.
\<close>

definition conserved :: "sys \<Rightarrow> bool" where
  "conserved \<sigma> = (mset (inserted \<sigma>) = mset (serviced \<sigma>) + mset (pending (sh \<sigma>)))"

text \<open>
  The numbering of a run: the counter equals the number of pushes, the \<open>k\<close>-th pushed
  event carries the number \<open>k\<close>, and the pending vector is strictly increasing and
  bounded by the counter.
\<close>

definition numbered :: "sys \<Rightarrow> bool" where
  "numbered \<sigma> =
     (sint (global_seq (sh \<sigma>)) = int (length (inserted \<sigma>)) \<and>
      map (\<lambda>e. sint (seq e)) (inserted \<sigma>) = map int [1 ..< Suc (length (inserted \<sigma>))] \<and>
      sorted_wrt seq_before (pending (sh \<sigma>)) \<and>
      (\<forall>e \<in> set (pending (sh \<sigma>)). seq e \<le>s global_seq (sh \<sigma>)))"

text \<open>Sample runs.\<close>

definition example_run :: "step list" where
  "example_run =
     [Device_push PRINTER 10, Device_push KEYBOARD 20, Controller ''t1'' ''t2'',
      Controller ''t1'' ''t2'', Device_push MOUSE 30]"

definition shutdown_run :: "step list" where
  "shutdown_run =
     [Device_push KEYBOARD 10, Device_push MOUSE 20, Controller ''12:00:00'' ''12:00:01'',
      Controller ''12:00:00'' ''12:00:01'', Controller ''12:00:00'' ''12:00:01'',
      User_line ''exit'', Controller ''12:00:02'' ''12:00:03'']"

definition logged_run :: "step list" where
  "logged_run = example_run @ [Controller ''12:00:00'' ''12:00:01'']"

definition shutdown_at_wait :: sys where
  "shutdown_at_wait =
     \<lparr>sh = scenario_A\<lparr>running := False\<rparr>, pc = At_wait, logf = example_log,
      user_alive = False, inserted = pending scenario_A, serviced = []\<rparr>"

text \<open>The event, if any, that a selection pass on a state extracts.\<close>

definition one_more :: "shared \<Rightarrow> InterruptEvent list" where
  "one_more s = (case select_and_remove s of None \<Rightarrow> [] | Some (ev, s') \<Rightarrow> [ev])"

text \<open>
  What \<^verbatim>\<open>append_log\<close> leaves of the file: untouched when it cannot be opened,
  otherwise written with as much of the line and its newline as the file takes.
\<close>

definition appended :: "string \<Rightarrow> log_file \<Rightarrow> log_file" where
  "appended line f = (if openable f then file_write (line @ [CHR 0x0A]) f else f)"

text \<open>The state of a run without the log file.\<close>

definition core :: "sys \<Rightarrow> shared \<times> ctrl_pc \<times> bool \<times> InterruptEvent list \<times> InterruptEvent list" where
  "core \<sigma> = (sh \<sigma>, pc \<sigma>, user_alive \<sigma>, inserted \<sigma>, serviced \<sigma>)"

text \<open>Effects that neither take nor release the mutex nor block.\<close>

definition quiet :: "action \<Rightarrow> bool" where
  "quiet a = (case a of Touch rw g \<Rightarrow> True | Cout t \<Rightarrow> True | _ \<Rightarrow> False)"

section \<open>The scan selects the best eligible event\<close>

lemma size_as_int_eq: "size_as_int n = signed_take_bit 31 (int n)"
  by (simp add: size_as_int_def signed_of_nat)

lemma scan_bound_le_length: "scan_bound s \<le> length (pending s)"
proof -
  have "signed_take_bit 31 (int (length (pending s))) \<le> int (length (pending s))"
    by (simp add: signed_take_bit_int_less_eq_self_iff)
  then show ?thesis by (simp add: scan_bound_def size_as_int_eq)
qed

lemma scan_bound_small:
  assumes "length (pending s) < 2 ^ 31"
  shows "scan_bound s = length (pending s)"
proof -
  have "int (length (pending s)) < 2 ^ 31" using assms by simp
  then have "signed_take_bit 31 (int (length (pending s))) = int (length (pending s))"
    by (simp add: signed_take_bit_int_eq_self)
  then show ?thesis by (simp add: scan_bound_def size_as_int_eq)
qed

lemma dev_val_inj: "dev_val a = dev_val b \<Longrightarrow> a = b"
  by (cases a; cases b) simp_all

lemma scan_inv_step: "scan_inv s n b \<Longrightarrow> scan_inv s (Suc n) (scan_body s n b)"
  unfolding scan_inv_def scan_body_def
  by (cases b)
     (auto simp: less_Suc_eq Let_def word_sless_alt word_sle_eq dest: dev_val_inj
           split: if_splits)

lemma scan_from_inv: "scan_inv s n (scan_from s n)"
proof (induction n)
  case 0
  show ?case by (simp add: scan_from_def scan_inv_def)
next
  case (Suc n)
  have "scan_from s (Suc n) = scan_body s n (scan_from s n)"
    by (simp add: scan_from_def)
  with Suc scan_inv_step show ?case by simp
qed

lemma select_None_iff:
  "select_and_remove s = None \<longleftrightarrow> (\<forall>j < scan_bound s. is_masked s (dev (pending s ! j)))"
  using scan_from_inv [of s "scan_bound s"]
  by (auto simp: select_and_remove_def best_idx_of_def scan_def scan_inv_def Let_def
           split: prod.splits if_splits)

lemma select_Some:
  assumes "select_and_remove s = Some (ev, s')"
  shows "\<exists>i < scan_bound s. ev = pending s ! i \<and> s' = s\<lparr>pending := erase_at (pending s) i\<rparr> \<and>
           \<not> is_masked s (dev ev) \<and>
           (\<forall>j < scan_bound s. \<not> is_masked s (dev (pending s ! j)) \<longrightarrow>
               dev_val (dev (pending s ! j)) \<le> dev_val (dev ev) \<and>
               (dev (pending s ! j) = dev ev \<longrightarrow> seq ev \<le>s seq (pending s ! j)))"
proof -
  obtain bi bd bs where b: "scan_from s (scan_bound s) = (bi, bd, bs)"
    by (cases "scan_from s (scan_bound s)") auto
  from assms b have bi: "bi \<noteq> - 1" and ev: "ev = pending s ! nat bi"
    and s': "s' = s\<lparr>pending := erase_at (pending s) (nat bi)\<rparr>"
    by (auto simp: select_and_remove_def best_idx_of_def scan_def Let_def split: if_splits)
  from scan_from_inv [of s "scan_bound s"] b bi
  have "nat bi < scan_bound s \<and> \<not> is_masked s (dev (pending s ! nat bi)) \<and>
        bd = dev (pending s ! nat bi) \<and> bs = seq (pending s ! nat bi) \<and>
        (\<forall>j < scan_bound s. \<not> is_masked s (dev (pending s ! j)) \<longrightarrow>
            dev_val (dev (pending s ! j)) \<le> dev_val bd \<and>
            (dev (pending s ! j) = bd \<longrightarrow> bs \<le>s seq (pending s ! j)))"
    by (auto simp: scan_inv_def split: if_splits)
  with ev s' show ?thesis by auto
qed

lemma is_masked_pending_update [simp]: "is_masked (s\<lparr>pending := p\<rparr>) d = is_masked s d"
  by (simp add: is_masked_def)

lemma unmasked_all_pending_update [simp]: "unmasked_all (s\<lparr>pending := p\<rparr>) = unmasked_all s"
  by (simp add: unmasked_all_def)

lemma unmasked_all_not_masked: "unmasked_all s \<Longrightarrow> \<not> is_masked s d"
  by (auto simp: unmasked_all_def is_masked_def)

lemma length_erase_at: "i < length xs \<Longrightarrow> length (erase_at xs i) = length xs - 1"
  by (simp add: erase_at_def)

lemma mset_erase_at: "i < length xs \<Longrightarrow> add_mset (xs ! i) (mset (erase_at xs i)) = mset xs"
proof -
  assume i: "i < length xs"
  then have "xs = take i xs @ xs ! i # drop (Suc i) xs"
    by (simp add: id_take_nth_drop)
  then have "mset xs = mset (take i xs @ xs ! i # drop (Suc i) xs)" by simp
  then show ?thesis by (simp add: erase_at_def)
qed

lemma set_erase_at: "set (erase_at xs i) \<subseteq> set xs"
  by (auto simp: erase_at_def dest: in_set_takeD in_set_dropD)

lemma selected_first:
  assumes sel: "select_and_remove s = Some (ev, s')"
    and small: "length (pending s) < 2 ^ 31"
    and e: "e \<in> set (pending s)" and um: "\<not> is_masked s (dev e)"
  shows "dev_val (dev e) \<le> dev_val (dev ev) \<and> (dev e = dev ev \<longrightarrow> seq ev \<le>s seq e)"
proof -
  from e obtain j where j: "j < length (pending s)" "e = pending s ! j"
    by (auto simp: in_set_conv_nth)
  with select_Some [OF sel] scan_bound_small [OF small] um show ?thesis by auto
qed

lemma drain_n_sorted:
  "unmasked_all s \<Longrightarrow> length (pending s) < 2 ^ 31 \<Longrightarrow> length (pending s) \<le> k \<Longrightarrow>
   mset (drain_n k s) = mset (pending s) \<and> sorted_wrt served_before (drain_n k s)"
proof (induction k arbitrary: s)
  case 0
  then show ?case by simp
next
  case (Suc k)
  show ?case
  proof (cases "select_and_remove s")
    case None
    with select_None_iff [of s] Suc.prems have "pending s = []"
      by (cases "pending s") (auto simp: scan_bound_small unmasked_all_not_masked)
    with None show ?thesis by simp
  next
    case (Some r)
    obtain ev s' where r: "r = (ev, s')" by (cases r)
    with Some have sel: "select_and_remove s = Some (ev, s')" by simp
    from select_Some [OF sel] obtain i where i: "i < scan_bound s" "ev = pending s ! i"
      "s' = s\<lparr>pending := erase_at (pending s) i\<rparr>" by blast
    from i scan_bound_le_length [of s] have il: "i < length (pending s)" by simp
    have p': "pending s' = erase_at (pending s) i" using i by simp
    have len: "length (pending s') = length (pending s) - 1"
      using il p' by (simp add: length_erase_at)
    have um': "unmasked_all s'" using Suc.prems i by simp
    have IH: "mset (drain_n k s') = mset (pending s') \<and> sorted_wrt served_before (drain_n k s')"
      using Suc.IH [OF um'] Suc.prems len by simp
    have ms: "mset (drain_n (Suc k) s) = mset (pending s)"
      using sel IH mset_erase_at [OF il] i p' by simp
    have "\<forall>e \<in> set (drain_n k s'). served_before ev e"
    proof
      fix e assume "e \<in> set (drain_n k s')"
      then have "e \<in># mset (drain_n k s')" by simp
      with IH have "e \<in> set (pending s')" by simp
      with p' set_erase_at have e: "e \<in> set (pending s)" by fastforce
      from selected_first [OF sel Suc.prems(2) e] unmasked_all_not_masked [OF Suc.prems(1)]
      have "dev_val (dev e) \<le> dev_val (dev ev) \<and> (dev e = dev ev \<longrightarrow> seq ev \<le>s seq e)" by simp
      then show "served_before ev e"
        using dev_val_inj [of "dev e" "dev ev"] by (auto simp: served_before_def)
    qed
    with IH sel have "sorted_wrt served_before (drain_n (Suc k) s)" by simp
    with ms show ?thesis by simp
  qed
qed

text \<open>
  C1. Let the pending vector hold at most \<^verbatim>\<open>INT_MAX\<close> events, so that the cast of
  its size keeps the value. Then an event selected by the scan is a pending event of an
  unmasked device; every unmasked pending event has a device value no higher, strictly
  lower when its device differs, and a sequence number no smaller when its device is the
  same; an event is selected as soon as one unmasked event is pending; and with nothing
  masked, selecting and removing until nothing is left takes every pending event, in the
  order of descending device value and, on one device, ascending sequence number.
\<close>

theorem scan_selects_highest_priority_oldest:
  assumes small: "length (pending s) < 2 ^ 31"
  shows "(\<forall>ev s'. select_and_remove s = Some (ev, s') \<longrightarrow>
            ev \<in> set (pending s) \<and> \<not> is_masked s (dev ev) \<and>
            (\<forall>e \<in> set (pending s). \<not> is_masked s (dev e) \<longrightarrow>
                dev_val (dev e) \<le> dev_val (dev ev) \<and>
                (dev e \<noteq> dev ev \<longrightarrow> dev_val (dev e) < dev_val (dev ev)) \<and>
                (dev e = dev ev \<longrightarrow> seq ev \<le>s seq e))) \<and>
         ((\<exists>e \<in> set (pending s). \<not> is_masked s (dev e)) \<longrightarrow> select_and_remove s \<noteq> None) \<and>
         (unmasked_all s \<longrightarrow>
            sorted_wrt served_before (drain s) \<and> mset (drain s) = mset (pending s))"
proof (intro conjI allI impI)
  fix ev s' assume sel: "select_and_remove s = Some (ev, s')"
  from select_Some [OF sel] scan_bound_le_length [of s]
  show "ev \<in> set (pending s)" by auto
  from select_Some [OF sel] show "\<not> is_masked s (dev ev)" by blast
  show "\<forall>e \<in> set (pending s). \<not> is_masked s (dev e) \<longrightarrow>
          dev_val (dev e) \<le> dev_val (dev ev) \<and>
          (dev e \<noteq> dev ev \<longrightarrow> dev_val (dev e) < dev_val (dev ev)) \<and>
          (dev e = dev ev \<longrightarrow> seq ev \<le>s seq e)"
  proof (intro ballI impI)
    fix e assume e: "e \<in> set (pending s)" and um: "\<not> is_masked s (dev e)"
    from selected_first [OF sel small e um]
    show "dev_val (dev e) \<le> dev_val (dev ev) \<and>
          (dev e \<noteq> dev ev \<longrightarrow> dev_val (dev e) < dev_val (dev ev)) \<and>
          (dev e = dev ev \<longrightarrow> seq ev \<le>s seq e)"
      by (auto simp: less_le dest: dev_val_inj)
  qed
next
  assume "\<exists>e \<in> set (pending s). \<not> is_masked s (dev e)"
  then obtain j where "j < length (pending s)" "\<not> is_masked s (dev (pending s ! j))"
    by (auto simp: in_set_conv_nth)
  then show "select_and_remove s \<noteq> None"
    by (auto simp: select_None_iff scan_bound_small [OF small])
next
  assume "unmasked_all s"
  with drain_n_sorted [of s "length (pending s)"] small
  show "sorted_wrt served_before (drain s)" by (simp add: drain_def)
next
  assume "unmasked_all s"
  with drain_n_sorted [of s "length (pending s)"] small
  show "mset (drain s) = mset (pending s)" by (simp add: drain_def)
qed

text \<open>Scenario A: Keyboard (2) leaves before Printer (1).\<close>

theorem scan_selects_highest_priority_oldest_witness:
  "length (pending scenario_A) < 2 ^ 31 \<and> unmasked_all scenario_A \<and>
   select_and_remove scenario_A \<noteq> None \<and>
   drain scenario_A = [\<lparr>dev = KEYBOARD, seq = 2, timestamp = 20\<rparr>,
                       \<lparr>dev = PRINTER, seq = 1, timestamp = 10\<rparr>] \<and>
   sorted_wrt served_before (drain scenario_A) \<and>
   mset (drain scenario_A) = mset (pending scenario_A)"
proof -
  have small: "length (pending scenario_A) < 2 ^ 31"
    by (simp add: scenario_A_def)
  have um: "unmasked_all scenario_A"
    by (simp add: scenario_A_def initial_shared_def unmasked_all_def)
  have ex: "\<exists>e \<in> set (pending scenario_A). \<not> is_masked scenario_A (dev e)"
    by (auto simp: scenario_A_def initial_shared_def is_masked_def)
  have d: "drain scenario_A = [\<lparr>dev = KEYBOARD, seq = 2, timestamp = 20\<rparr>,
                       \<lparr>dev = PRINTER, seq = 1, timestamp = 10\<rparr>]"
    by code_simp
  from scan_selects_highest_priority_oldest [OF small] um ex d small show ?thesis by simp
qed

section \<open>A masked device is never selected\<close>

text \<open>
  C2. An event that the scan selects belongs to an unmasked device, so for a masked
  device D the selected event is never one of D, whatever the rank of D; and when the
  pending vector holds at most \<^verbatim>\<open>INT_MAX\<close> events and some pending event is unmasked,
  the scan does select an event, an unmasked one.
\<close>

theorem masked_device_never_selected:
  "(\<forall>ev s'. select_and_remove s = Some (ev, s') \<longrightarrow>
       \<not> is_masked s (dev ev) \<and> (\<forall>D. is_masked s D \<longrightarrow> dev ev \<noteq> D)) \<and>
   (length (pending s) < 2 ^ 31 \<and> (\<exists>e \<in> set (pending s). \<not> is_masked s (dev e)) \<longrightarrow>
       (\<exists>ev s'. select_and_remove s = Some (ev, s') \<and> \<not> is_masked s (dev ev)))"
proof (intro conjI allI impI)
  fix ev s' assume sel: "select_and_remove s = Some (ev, s')"
  from select_Some [OF sel] show um: "\<not> is_masked s (dev ev)" by blast
  fix D assume "is_masked s D"
  with um show "dev ev \<noteq> D" by blast
next
  assume a: "length (pending s) < 2 ^ 31 \<and> (\<exists>e \<in> set (pending s). \<not> is_masked s (dev e))"
  then obtain j where "j < length (pending s)" "\<not> is_masked s (dev (pending s ! j))"
    by (auto simp: in_set_conv_nth)
  with a have "select_and_remove s \<noteq> None"
    by (auto simp: select_None_iff scan_bound_small)
  then obtain ev s' where sel: "select_and_remove s = Some (ev, s')" by auto
  with select_Some [OF sel]
  show "\<exists>ev s'. select_and_remove s = Some (ev, s') \<and> \<not> is_masked s (dev ev)" by blast
qed

text \<open>Scenario B: Keyboard is masked and pending, Mouse is selected.\<close>

theorem masked_device_never_selected_witness:
  "is_masked scenario_B KEYBOARD \<and> length (pending scenario_B) < 2 ^ 31 \<and>
   (\<exists>e \<in> set (pending scenario_B). \<not> is_masked scenario_B (dev e)) \<and>
   select_and_remove scenario_B =
     Some (\<lparr>dev = MOUSE, seq = 2, timestamp = 20\<rparr>,
           scenario_B\<lparr>pending := [\<lparr>dev = KEYBOARD, seq = 1, timestamp = 10\<rparr>]\<rparr>) \<and>
   \<not> is_masked scenario_B MOUSE \<and> MOUSE \<noteq> KEYBOARD"
proof -
  have m: "is_masked scenario_B KEYBOARD"
    by (simp add: scenario_B_def initial_shared_def is_masked_def)
  have small: "length (pending scenario_B) < 2 ^ 31"
    by (simp add: scenario_B_def)
  have ex: "\<exists>e \<in> set (pending scenario_B). \<not> is_masked scenario_B (dev e)"
    by (auto simp: scenario_B_def initial_shared_def is_masked_def)
  have sel: "select_and_remove scenario_B =
     Some (\<lparr>dev = MOUSE, seq = 2, timestamp = 20\<rparr>,
           scenario_B\<lparr>pending := [\<lparr>dev = KEYBOARD, seq = 1, timestamp = 10\<rparr>]\<rparr>)"
    by code_simp
  from masked_device_never_selected [of scenario_B] sel m
  have "\<not> is_masked scenario_B MOUSE \<and> MOUSE \<noteq> KEYBOARD" by auto
  with m small ex sel show ?thesis by simp
qed

section \<open>append\_log does not throw\<close>

lemma stream_can_throw:
  "set_failbit (init_stream\<lparr>exceptions_failbit := True\<rparr>) = Inl Ios_failure \<and>
   set_badbit (init_stream\<lparr>exceptions_badbit := True\<rparr>) = Inl Ios_failure"
  by (simp add: set_failbit_def set_badbit_def ios_clear_def init_stream_def)

lemma ofstream_open_result:
  "ofstream_open f = Inr (init_stream\<lparr>failbit := \<not> openable f\<rparr>)"
  by (simp add: ofstream_open_def set_failbit_def ios_clear_def init_stream_def)

lemma stream_insert_good:
  assumes "stream_ok st" "\<not> exceptions_badbit st"
  shows "stream_insert text st f =
           Inr (st\<lparr>badbit := length (accepted f text) < length text\<rparr>, file_write text f)"
  using assms by (simp add: stream_insert_def set_badbit_def ios_clear_def stream_ok_def)

lemma stream_insert_failed:
  assumes "\<not> stream_ok st" "\<not> exceptions_failbit st" "\<not> exceptions_badbit st"
  shows "stream_insert text st f = Inr (st\<lparr>failbit := True\<rparr>, f)"
  using assms by (simp add: stream_insert_def set_failbit_def ios_clear_def)

lemma accepted_prefix: "\<exists>k. accepted f text = take k text"
  by (cases "room f") (auto simp: accepted_def intro: exI [of _ "length text"])

lemma append_log_eq: "append_log line f = Inr (appended line f)"
proof (cases "openable f")
  case False
  then show ?thesis
    by (simp add: append_log_def ofstream_open_result stream_ok_def init_stream_def appended_def)
next
  case True
  let ?st = "init_stream\<lparr>failbit := False\<rparr>"
  have ok: "stream_ok ?st" "\<not> exceptions_badbit ?st" "\<not> exceptions_failbit ?st"
    by (simp_all add: stream_ok_def init_stream_def)
  let ?st1 = "?st\<lparr>badbit := length (accepted f line) < length line\<rparr>"
  let ?f1 = "file_write line f"
  have i1: "stream_insert line ?st f = Inr (?st1, ?f1)"
    using ok by (simp add: stream_insert_good)
  show ?thesis
  proof (cases "room f")
    case None
    then have full: "accepted f line = line" by (simp add: accepted_def)
    have r1: "room ?f1 = None" using None by (simp add: file_write_def)
    have ok1: "stream_ok ?st1" "\<not> exceptions_badbit ?st1"
      using full by (simp_all add: stream_ok_def init_stream_def)
    have "stream_insert [CHR 0x0A] ?st1 ?f1 =
            Inr (?st1\<lparr>badbit := length (accepted ?f1 [CHR 0x0A]) < length [CHR 0x0A]\<rparr>,
                 file_write [CHR 0x0A] ?f1)"
      using ok1 by (rule stream_insert_good)
    moreover have "file_write [CHR 0x0A] ?f1 = appended line f"
      using None True by (simp add: file_write_def accepted_def appended_def)
    ultimately show ?thesis
      using True i1 ok by (simp add: append_log_def ofstream_open_result)
  next
    case (Some n)
    show ?thesis
    proof (cases "n < length line")
      case short: True
      then have bad: "\<not> stream_ok ?st1" "\<not> exceptions_failbit ?st1" "\<not> exceptions_badbit ?st1"
        using Some by (simp_all add: stream_ok_def init_stream_def accepted_def)
      have "stream_insert [CHR 0x0A] ?st1 ?f1 = Inr (?st1\<lparr>failbit := True\<rparr>, ?f1)"
        using bad by (rule stream_insert_failed)
      moreover have "?f1 = appended line f"
        using Some True short by (simp add: file_write_def accepted_def appended_def min_def)
      ultimately show ?thesis
        using True i1 ok by (simp add: append_log_def ofstream_open_result)
    next
      case long: False
      then have full: "accepted f line = line" using Some by (simp add: accepted_def)
      have ok1: "stream_ok ?st1" "\<not> exceptions_badbit ?st1"
        using full by (simp_all add: stream_ok_def init_stream_def)
      have "stream_insert [CHR 0x0A] ?st1 ?f1 =
              Inr (?st1\<lparr>badbit := length (accepted ?f1 [CHR 0x0A]) < length [CHR 0x0A]\<rparr>,
                   file_write [CHR 0x0A] ?f1)"
        using ok1 by (rule stream_insert_good)
      moreover have "file_write [CHR 0x0A] ?f1 = appended line f"
        using Some True long by (auto simp: file_write_def accepted_def appended_def min_def)
      ultimately show ?thesis
        using True i1 ok by (simp add: append_log_def ofstream_open_result)
    qed
  qed
qed

lemma servicing_step_eq:
  "servicing_step ev started done f =
     (Loop_top, appended (end_line ev done) (appended (start_line ev started) f),
      [Cout (device_name (dev ev) @ '' Interrupt Triggered '' @ arrow @
             '' Handling ISR '' @ arrow @ '' ''),
       Cout (''Started at '' @ started @ endl),
       Append_log (start_line ev started),
       Sleep_for (isr_delay (dev ev)),
       Cout (device_name (dev ev) @ '' ISR Completed at '' @ done @ endl),
       Append_log (end_line ev done)])"
  by (simp add: servicing_step_def append_log_eq)

section \<open>Runs: what the steps change\<close>

lemma sint_succ:
  assumes "(g :: 64 word) \<noteq> LLONG_MAX"
  shows "sint (g + 1) = sint g + 1"
proof -
  have "sint g \<noteq> 2 ^ 63 - 1"
  proof
    assume "sint g = 2 ^ 63 - 1"
    then have "sint g = sint LLONG_MAX" by (simp add: LLONG_MAX_def)
    then have "g = LLONG_MAX" by (rule signed_word_eqI)
    with assms show False by simp
  qed
  moreover have "sint g < 2 ^ 63" using sint_lt [of g] by simp
  moreover have "- (2 ^ 63) \<le> sint g" using sint_ge [of g] by simp
  ultimately have "- (2 ^ 63) \<le> sint g + 1" "sint g + 1 < 2 ^ 63" by simp_all
  then have "signed_take_bit 63 (sint g + 1) = sint g + 1"
    by (simp add: signed_take_bit_int_eq_self)
  then show ?thesis by (simp add: sint_word_ariths)
qed

lemma sint_succ_below:
  assumes "sint (g :: 64 word) < 2 ^ 63 - 1"
  shows "sint (g + 1) = sint g + 1"
proof (rule sint_succ)
  show "g \<noteq> LLONG_MAX" using assms by (auto simp: LLONG_MAX_def)
qed

lemma controller_step_cases:
  assumes "controller_step started done p s f = (p', s', f', tr)"
  shows "(s' = s \<and> \<not> (p = At_wait \<and> (\<exists>ev. p' = Servicing ev))) \<or>
         (p = At_wait \<and> (\<exists>ev. p' = Servicing ev \<and> select_and_remove s = Some (ev, s')))"
proof (cases p)
  case At_wait
  with assms show ?thesis
    by (auto simp: at_wait_step_def split: if_splits option.splits prod.splits)
next
  case (Servicing ev)
  with assms show ?thesis by (auto simp: servicing_step_eq)
qed (use assms in \<open>auto simp: loop_top_step_def timed_wait_step_def\<close>)

lemma user_command_frame:
  assumes "user_command cmd s = (s', tr, left)"
  shows "pending s' = pending s \<and> global_seq s' = global_seq s"
  using assms
  by (auto simp: user_command_def mask_command_def unmask_command_def
           split: if_splits prod.splits)

lemma select_pending:
  assumes "select_and_remove s = Some (ev, s')"
  shows "\<exists>i < length (pending s). ev = pending s ! i \<and> pending s' = erase_at (pending s) i \<and>
           global_seq s' = global_seq s"
proof -
  from select_Some [OF assms] obtain i where "i < scan_bound s" "ev = pending s ! i"
    "s' = s\<lparr>pending := erase_at (pending s) i\<rparr>" by blast
  with scan_bound_le_length [of s] show ?thesis by (intro exI [of _ i]) auto
qed

lemma select_running:
  assumes "select_and_remove s = Some (ev, s')"
  shows "running s' = running s"
  using assms by (auto simp: select_and_remove_def Let_def split: if_splits)

lemma pushes_append: "pushes (xs @ ys) = pushes xs + pushes ys"
  by (simp add: pushes_def)

lemma run_snoc: "run (steps @ [a]) \<sigma> = exec a (run steps \<sigma>)"
  by (simp add: run_def)

lemma extract_token_Nil: "extract_token [] = ([], [])"
  by (simp add: extract_token_def)

lemma mask_command_unknown:
  "which \<notin> {''k'', ''m'', ''p''} \<Longrightarrow>
   mask_command which s = (s, [Cout (''Unknown device. Use k/m/p.'' @ endl), Notify_one])"
  by (simp add: mask_command_def unknown_device_def)

lemma unmask_command_unknown:
  "which \<notin> {''k'', ''m'', ''p''} \<Longrightarrow>
   unmask_command which s = (s, [Cout (''Unknown device. Use k/m/p.'' @ endl), Notify_one])"
  by (simp add: unmask_command_def unknown_device_def)

section \<open>Sequence numbers\<close>

lemma sorted_wrt_erase_at: "sorted_wrt P xs \<Longrightarrow> sorted_wrt P (erase_at xs i)"
  unfolding erase_at_def sorted_wrt_append
  by (auto simp: sorted_wrt_take sorted_wrt_drop sorted_wrt_iff_nth_less in_set_conv_nth)

lemma seq_before_distinct: "sorted_wrt seq_before xs \<Longrightarrow> distinct (map seq xs)"
  by (induction xs) (auto simp: seq_before_def word_sless_alt)

lemma numbered_sorted_inserted:
  assumes "numbered \<sigma>"
  shows "sorted_wrt seq_before (inserted \<sigma>)"
proof -
  let ?xs = "inserted \<sigma>"
  from assms have m: "map (\<lambda>e. sint (seq e)) ?xs = map int [1 ..< Suc (length ?xs)]"
    by (simp add: numbered_def)
  have nth: "sint (seq (?xs ! i)) = int (Suc i)" if "i < length ?xs" for i
  proof -
    from that have "map (\<lambda>e. sint (seq e)) ?xs ! i = sint (seq (?xs ! i))" by simp
    moreover from that have "map int [1 ..< Suc (length ?xs)] ! i = int (Suc i)"
      by (simp del: upt_Suc)
    ultimately show ?thesis using m by simp
  qed
  show ?thesis
    by (auto simp: sorted_wrt_iff_nth_less seq_before_def word_sless_alt nth)
qed

lemma numbered_distinct_inserted:
  assumes "numbered \<sigma>"
  shows "distinct (inserted \<sigma>)"
proof -
  from seq_before_distinct [OF numbered_sorted_inserted [OF assms]]
  show ?thesis by (simp add: distinct_map)
qed

lemma numbered_exec:
  assumes n: "numbered \<sigma>" and b: "pushes [a] + length (inserted \<sigma>) < 2 ^ 63"
  shows "numbered (exec a \<sigma>) \<and> length (inserted (exec a \<sigma>)) = length (inserted \<sigma>) + pushes [a]"
proof (cases a)
  case (Device_push d now)
  let ?g = "global_seq (sh \<sigma>)"
  from b Device_push have "int (length (inserted \<sigma>)) < 2 ^ 63 - 1"
    by (simp add: pushes_def)
  with n have "sint ?g < 2 ^ 63 - 1" by (simp add: numbered_def)
  then have g1: "sint (?g + 1) = sint ?g + 1" by (rule sint_succ_below)
  with n have g1': "sint (?g + 1) = int (length (inserted \<sigma>)) + 1" by (simp add: numbered_def)
  have "numbered (exec a \<sigma>)"
    using n Device_push g1 g1'
    by (auto simp: numbered_def device_push_def new_event_def sorted_wrt_append
          seq_before_def word_sless_alt word_sle_eq)
  with Device_push show ?thesis by (simp add: pushes_def)
next
  case (Controller t1 t2)
  obtain p' s' f' tr where st: "controller_step t1 t2 (pc \<sigma>) (sh \<sigma>) (logf \<sigma>) = (p', s', f', tr)"
    by (cases "controller_step t1 t2 (pc \<sigma>) (sh \<sigma>) (logf \<sigma>)") auto
  from controller_step_cases [OF st] have "numbered (exec a \<sigma>)"
  proof
    assume "s' = sh \<sigma> \<and> \<not> (pc \<sigma> = At_wait \<and> (\<exists>ev. p' = Servicing ev))"
    with n st Controller show ?thesis by (simp add: numbered_def)
  next
    assume "pc \<sigma> = At_wait \<and> (\<exists>ev. p' = Servicing ev \<and> select_and_remove (sh \<sigma>) = Some (ev, s'))"
    then obtain ev where sel: "select_and_remove (sh \<sigma>) = Some (ev, s')" by blast
    from select_pending [OF sel] obtain i where i:
      "pending s' = erase_at (pending (sh \<sigma>)) i" "global_seq s' = global_seq (sh \<sigma>)" by blast
    with n st Controller set_erase_at [of "pending (sh \<sigma>)" i] show ?thesis
      by (auto simp: numbered_def sorted_wrt_erase_at)
  qed
  with Controller st show ?thesis by (simp add: pushes_def)
next
  case (User_line cmd)
  obtain s' tr left where uc: "user_command cmd (sh \<sigma>) = (s', tr, left)"
    by (cases "user_command cmd (sh \<sigma>)") auto
  from user_command_frame [OF uc] n uc User_line show ?thesis
    by (simp add: numbered_def pushes_def del: upt_Suc)
next
  case User_eof
  with n show ?thesis by (simp add: numbered_def pushes_def del: upt_Suc)
qed

lemma numbered_run:
  "numbered \<sigma> \<Longrightarrow> length (inserted \<sigma>) + pushes steps < 2 ^ 63 \<Longrightarrow>
   numbered (run steps \<sigma>) \<and> length (inserted (run steps \<sigma>)) = length (inserted \<sigma>) + pushes steps"
proof (induction steps rule: rev_induct)
  case Nil
  then show ?case by (simp add: run_def pushes_def)
next
  case (snoc a steps)
  from snoc.prems have b: "length (inserted \<sigma>) + pushes steps < 2 ^ 63"
    by (simp add: pushes_append)
  from snoc.IH [OF snoc.prems(1) b]
  have IH: "numbered (run steps \<sigma>)" "length (inserted (run steps \<sigma>)) = length (inserted \<sigma>) + pushes steps"
    by simp_all
  from snoc.prems IH have "pushes [a] + length (inserted (run steps \<sigma>)) < 2 ^ 63"
    by (simp add: pushes_append)
  from numbered_exec [OF IH(1) this] IH(2) show ?case
    by (simp add: run_snoc pushes_append)
qed

lemma numbered_initial: "numbered (initial_sys f)"
  by (simp add: numbered_def initial_sys_def initial_shared_def)

text \<open>
  C3. In every run with fewer than \<open>2^63\<close> pushes (the counter has not yet passed
  \<^verbatim>\<open>LLONG_MAX\<close>), the sequence numbers of the pushed events, in the order of the
  pushes, are \<open>1, 2, 3, ...\<close> without a gap, so each is strictly greater than every
  number assigned before it; the counter equals the number of pushes; and the sequence
  numbers in the pending vector are strictly increasing in its order, which is the order
  of insertion, hence pairwise distinct. The push increments the counter and appends the
  event with the mutex held.
\<close>

theorem sequence_numbers_strictly_increasing:
  assumes "pushes steps < 2 ^ 63"
  shows "sorted_wrt seq_before (inserted (run steps (initial_sys f))) \<and>
         map (\<lambda>e. sint (seq e)) (inserted (run steps (initial_sys f))) =
           map int [1 ..< Suc (pushes steps)] \<and>
         sint (global_seq (sh (run steps (initial_sys f)))) = int (pushes steps) \<and>
         sorted_wrt seq_before (pending (sh (run steps (initial_sys f)))) \<and>
         distinct (map seq (pending (sh (run steps (initial_sys f))))) \<and>
         lock_held_at_accesses False (snd (device_push d now s))"
proof -
  let ?\<sigma> = "run steps (initial_sys f)"
  have "length (inserted (initial_sys f)) + pushes steps < 2 ^ 63"
    using assms by (simp add: initial_sys_def)
  from numbered_run [OF numbered_initial this]
  have n: "numbered ?\<sigma>" and l: "length (inserted ?\<sigma>) = pushes steps"
    by (simp_all add: initial_sys_def)
  from n have p: "sorted_wrt seq_before (pending (sh ?\<sigma>))" by (simp add: numbered_def)
  from numbered_sorted_inserted [OF n] n l p seq_before_distinct [OF p]
  show ?thesis by (simp add: numbered_def device_push_def)
qed

text \<open>Three pushes with a selection in between.\<close>

theorem sequence_numbers_strictly_increasing_witness:
  "pushes example_run < 2 ^ 63 \<and>
   map seq (inserted (run example_run (initial_sys example_log))) = [1, 2, 3] \<and>
   map seq (pending (sh (run example_run (initial_sys example_log)))) = [1, 3] \<and>
   sorted_wrt seq_before (inserted (run example_run (initial_sys example_log))) \<and>
   sorted_wrt seq_before (pending (sh (run example_run (initial_sys example_log)))) \<and>
   distinct (map seq (pending (sh (run example_run (initial_sys example_log)))))"
proof -
  have p: "pushes example_run < 2 ^ 63" by (simp add: pushes_def example_run_def)
  have i: "map seq (inserted (run example_run (initial_sys example_log))) = [1, 2, 3]"
    by code_simp
  have q: "map seq (pending (sh (run example_run (initial_sys example_log)))) = [1, 3]"
    by code_simp
  from sequence_numbers_strictly_increasing [OF p, of example_log] p i q show ?thesis by simp
qed

section \<open>No event is lost or duplicated\<close>

lemma exec_conserved:
  assumes c: "conserved \<sigma>"
  shows "conserved (exec a \<sigma>)"
proof (cases a)
  case (Device_push d now)
  with c show ?thesis by (simp add: conserved_def device_push_def)
next
  case (Controller t1 t2)
  obtain p' s' f' tr where st: "controller_step t1 t2 (pc \<sigma>) (sh \<sigma>) (logf \<sigma>) = (p', s', f', tr)"
    by (cases "controller_step t1 t2 (pc \<sigma>) (sh \<sigma>) (logf \<sigma>)") auto
  from controller_step_cases [OF st] show ?thesis
  proof
    assume "s' = sh \<sigma> \<and> \<not> (pc \<sigma> = At_wait \<and> (\<exists>ev. p' = Servicing ev))"
    with c st Controller show ?thesis
      by (auto simp: conserved_def split: ctrl_pc.splits)
  next
    assume "pc \<sigma> = At_wait \<and> (\<exists>ev. p' = Servicing ev \<and> select_and_remove (sh \<sigma>) = Some (ev, s'))"
    then obtain ev where aw: "pc \<sigma> = At_wait" and p': "p' = Servicing ev"
      and sel: "select_and_remove (sh \<sigma>) = Some (ev, s')" by blast
    from select_pending [OF sel] obtain i where i: "i < length (pending (sh \<sigma>))"
      "ev = pending (sh \<sigma>) ! i" "pending s' = erase_at (pending (sh \<sigma>)) i" by blast
    from mset_erase_at [OF i(1)] i have "add_mset ev (mset (pending s')) = mset (pending (sh \<sigma>))"
      by simp
    with c st Controller aw p' show ?thesis
      by (simp add: conserved_def)
  qed
next
  case (User_line cmd)
  obtain s' tr left where uc: "user_command cmd (sh \<sigma>) = (s', tr, left)"
    by (cases "user_command cmd (sh \<sigma>)") auto
  from user_command_frame [OF uc] c uc User_line show ?thesis
    by (simp add: conserved_def)
next
  case User_eof
  with c show ?thesis by (simp add: conserved_def)
qed

lemma run_conserved: "conserved \<sigma> \<Longrightarrow> conserved (run steps \<sigma>)"
  unfolding run_def by (induction steps arbitrary: \<sigma>) (simp_all add: exec_conserved)

text \<open>
  C7. After every run from the initial state, the multiset of the events pushed so far is
  the sum of the multiset of the events extracted for service and the multiset of the
  events still pending; and while the counter has not wrapped (fewer than \<open>2^63\<close>
  pushes) no event occurs twice among the serviced and the pending ones.
\<close>

theorem inserted_is_serviced_plus_pending:
  "mset (inserted (run steps (initial_sys f))) =
     mset (serviced (run steps (initial_sys f))) + mset (pending (sh (run steps (initial_sys f)))) \<and>
   (pushes steps < 2 ^ 63 \<longrightarrow>
      distinct (serviced (run steps (initial_sys f)) @ pending (sh (run steps (initial_sys f)))))"
proof
  let ?\<sigma> = "run steps (initial_sys f)"
  have "conserved (initial_sys f)"
    by (simp add: conserved_def initial_sys_def initial_shared_def)
  from run_conserved [OF this]
  show c: "mset (inserted ?\<sigma>) = mset (serviced ?\<sigma>) + mset (pending (sh ?\<sigma>))"
    by (simp add: conserved_def)
  show "pushes steps < 2 ^ 63 \<longrightarrow> distinct (serviced ?\<sigma> @ pending (sh ?\<sigma>))"
  proof
    assume "pushes steps < 2 ^ 63"
    then have "length (inserted (initial_sys f)) + pushes steps < 2 ^ 63"
      by (simp add: initial_sys_def)
    from numbered_run [OF numbered_initial this] have "numbered ?\<sigma>" by simp
    then have d: "distinct (inserted ?\<sigma>)" by (rule numbered_distinct_inserted)
    from c have "mset (inserted ?\<sigma>) = mset (serviced ?\<sigma> @ pending (sh ?\<sigma>))" by simp
    from mset_eq_imp_distinct_iff [OF this] d
    show "distinct (serviced ?\<sigma> @ pending (sh ?\<sigma>))" by simp
  qed
qed

text \<open>The run of three pushes: Keyboard (2) serviced, Printer (1) and Mouse (3) pending.\<close>

theorem inserted_is_serviced_plus_pending_witness:
  "pushes example_run < 2 ^ 63 \<and>
   serviced (run example_run (initial_sys example_log)) =
     [\<lparr>dev = KEYBOARD, seq = 2, timestamp = 20\<rparr>] \<and>
   pending (sh (run example_run (initial_sys example_log))) =
     [\<lparr>dev = PRINTER, seq = 1, timestamp = 10\<rparr>, \<lparr>dev = MOUSE, seq = 3, timestamp = 30\<rparr>] \<and>
   mset (inserted (run example_run (initial_sys example_log))) =
     mset (serviced (run example_run (initial_sys example_log))) +
     mset (pending (sh (run example_run (initial_sys example_log)))) \<and>
   distinct (serviced (run example_run (initial_sys example_log)) @
             pending (sh (run example_run (initial_sys example_log))))"
proof -
  have p: "pushes example_run < 2 ^ 63" by (simp add: pushes_def example_run_def)
  have s: "serviced (run example_run (initial_sys example_log)) =
     [\<lparr>dev = KEYBOARD, seq = 2, timestamp = 20\<rparr>]" by code_simp
  have q: "pending (sh (run example_run (initial_sys example_log))) =
     [\<lparr>dev = PRINTER, seq = 1, timestamp = 10\<rparr>, \<lparr>dev = MOUSE, seq = 3, timestamp = 30\<rparr>]"
    by code_simp
  from inserted_is_serviced_plus_pending [of example_run example_log] p
  have "mset (inserted (run example_run (initial_sys example_log))) =
     mset (serviced (run example_run (initial_sys example_log))) +
     mset (pending (sh (run example_run (initial_sys example_log)))) \<and>
   distinct (serviced (run example_run (initial_sys example_log)) @
             pending (sh (run example_run (initial_sys example_log))))" by blast
  with p s q show ?thesis by blast
qed

section \<open>Every pending event masked\<close>





















section \<open>Leaving the loop\<close>

text \<open>
  At the top of the loop the controller stops as soon as \<^verbatim>\<open>running\<close> is false, also
  with events pending: here with the two events of scenario A.
\<close>

theorem controller_stops_with_pending_events:
  "fst (controller_step ''12:00:00'' ''12:00:01'' Loop_top (scenario_A\<lparr>running := False\<rparr>) example_log)
     = Stopped \<and>
   \<not> running (scenario_A\<lparr>running := False\<rparr>) \<and>
   pending (scenario_A\<lparr>running := False\<rparr>) \<noteq> []"
  by (simp add: loop_top_step_def scenario_A_def)

text \<open>
  C6, amended. A step of the controller ends in the stopped place exactly when the
  controller had stopped already, or it is at the top of its loop and shutdown has been
  requested (whatever is pending), or it is at the wait, shutdown has been requested and
  nothing is pending. The step function has no other outcome: there is no failure.
\<close>

theorem controller_stops_only_on_shutdown:
  "fst (controller_step t1 t2 p s f) = Stopped \<longleftrightarrow>
     p = Stopped \<or> (p = Loop_top \<and> \<not> running s) \<or>
     (p = At_wait \<and> \<not> running s \<and> pending s = [])"
proof (cases p)
  case At_wait
  then show ?thesis
    by (auto simp: at_wait_step_def split: option.splits prod.splits)
next
  case (Servicing ev)
  then show ?thesis by (simp add: servicing_step_eq)
qed (auto simp: loop_top_step_def timed_wait_step_def)

text \<open>At the wait: stops with shutdown requested and nothing pending, goes on in scenario A.\<close>

theorem controller_stops_only_on_shutdown_witness:
  "fst (controller_step ''a'' ''b'' At_wait (initial_shared\<lparr>running := False\<rparr>) example_log) = Stopped \<and>
   fst (controller_step ''a'' ''b'' At_wait scenario_A example_log) \<noteq> Stopped"
  using controller_stops_only_on_shutdown [of "''a''" "''b''" At_wait "initial_shared\<lparr>running := False\<rparr>" example_log]
    controller_stops_only_on_shutdown [of "''a''" "''b''" At_wait scenario_A example_log]
  by (simp add: initial_shared_def scenario_A_def)

text \<open>
  The shutdown flag flips while the controller is at the top of its loop and a Mouse event
  is pending and eligible: the controller stops at once, no selection pass follows, and
  the Mouse event stays pending.
\<close>

theorem shutdown_at_loop_top_discards_pending:
  "running (sh (run (take 5 shutdown_run) (initial_sys example_log))) \<and>
   \<not> running (sh (run (take 6 shutdown_run) (initial_sys example_log))) \<and>
   pc (run (take 6 shutdown_run) (initial_sys example_log)) = Loop_top \<and>
   pending (sh (run (take 6 shutdown_run) (initial_sys example_log))) =
     [\<lparr>dev = MOUSE, seq = 2, timestamp = 20\<rparr>] \<and>
   select_and_remove (sh (run (take 6 shutdown_run) (initial_sys example_log))) \<noteq> None \<and>
   pc (run shutdown_run (initial_sys example_log)) = Stopped \<and>
   serviced (run shutdown_run (initial_sys example_log)) =
     serviced (run (take 6 shutdown_run) (initial_sys example_log)) \<and>
   pending (sh (run shutdown_run (initial_sys example_log))) =
     [\<lparr>dev = MOUSE, seq = 2, timestamp = 20\<rparr>]"
  by code_simp

text \<open>
  C9, amended. Let shutdown be requested and the pending vector be not empty. If the
  controller is past the loop test (at the wait), it does not stop: it makes the
  selection pass, extracts the event the scan selects, if any, services it (or waits out
  the timed wait when every pending event is masked), and stops at the next loop test,
  having serviced that one event and no other. If the controller is at the top of its
  loop it stops at once; if it is in the timed wait or in a service routine, it finishes
  that step and stops at the loop test, without a selection pass.
\<close>

theorem shutdown_past_loop_test_serves_one_more:
  assumes nr: "\<not> running (sh \<sigma>)" and ne: "pending (sh \<sigma>) \<noteq> []"
  shows "(pc \<sigma> = At_wait \<longrightarrow>
            pc (exec (Controller t1 t2) \<sigma>) =
              (case select_and_remove (sh \<sigma>) of None \<Rightarrow> Timed_wait | Some (ev, s') \<Rightarrow> Servicing ev) \<and>
            serviced (exec (Controller t1 t2) \<sigma>) = serviced \<sigma> @ one_more (sh \<sigma>) \<and>
            pc (run [Controller t1 t2, Controller t3 t4, Controller t5 t6] \<sigma>) = Stopped \<and>
            serviced (run [Controller t1 t2, Controller t3 t4, Controller t5 t6] \<sigma>) =
              serviced \<sigma> @ one_more (sh \<sigma>)) \<and>
         (pc \<sigma> = Loop_top \<longrightarrow> exec (Controller t1 t2) \<sigma> = \<sigma>\<lparr>pc := Stopped\<rparr>) \<and>
         (pc \<sigma> = Timed_wait \<or> (\<exists>ev. pc \<sigma> = Servicing ev) \<longrightarrow>
            pc (run [Controller t1 t2, Controller t3 t4] \<sigma>) = Stopped \<and>
            sh (run [Controller t1 t2, Controller t3 t4] \<sigma>) = sh \<sigma> \<and>
            serviced (run [Controller t1 t2, Controller t3 t4] \<sigma>) = serviced \<sigma>)"
proof (intro conjI impI)
  assume aw: "pc \<sigma> = At_wait"
  show "pc (exec (Controller t1 t2) \<sigma>) =
          (case select_and_remove (sh \<sigma>) of None \<Rightarrow> Timed_wait | Some (ev, s') \<Rightarrow> Servicing ev)"
    using aw nr ne by (auto simp: at_wait_step_def split: option.splits)
  show "serviced (exec (Controller t1 t2) \<sigma>) = serviced \<sigma> @ one_more (sh \<sigma>)"
    using aw nr ne by (auto simp: at_wait_step_def one_more_def split: option.splits)
  show "pc (run [Controller t1 t2, Controller t3 t4, Controller t5 t6] \<sigma>) = Stopped"
    using aw nr ne
    by (auto simp: run_def at_wait_step_def timed_wait_step_def servicing_step_eq
          loop_top_step_def select_running split: option.splits)
  show "serviced (run [Controller t1 t2, Controller t3 t4, Controller t5 t6] \<sigma>) =
          serviced \<sigma> @ one_more (sh \<sigma>)"
    using aw nr ne
    by (auto simp: run_def at_wait_step_def timed_wait_step_def servicing_step_eq
          loop_top_step_def select_running one_more_def split: option.splits)
next
  assume "pc \<sigma> = Loop_top"
  with nr show "exec (Controller t1 t2) \<sigma> = \<sigma>\<lparr>pc := Stopped\<rparr>"
    by (simp add: loop_top_step_def)
next
  assume a: "pc \<sigma> = Timed_wait \<or> (\<exists>ev. pc \<sigma> = Servicing ev)"
  with nr show "pc (run [Controller t1 t2, Controller t3 t4] \<sigma>) = Stopped"
    by (auto simp: run_def timed_wait_step_def servicing_step_eq loop_top_step_def)
  from a nr show "sh (run [Controller t1 t2, Controller t3 t4] \<sigma>) = sh \<sigma>"
    by (auto simp: run_def timed_wait_step_def servicing_step_eq loop_top_step_def)
  from a nr show "serviced (run [Controller t1 t2, Controller t3 t4] \<sigma>) = serviced \<sigma>"
    by (auto simp: run_def timed_wait_step_def servicing_step_eq loop_top_step_def)
qed

text \<open>Scenario A with shutdown requested, the controller at the wait.\<close>

theorem shutdown_past_loop_test_serves_one_more_witness:
  "\<not> running (sh shutdown_at_wait) \<and> pending (sh shutdown_at_wait) \<noteq> [] \<and>
   pc shutdown_at_wait = At_wait \<and>
   one_more (sh shutdown_at_wait) = [\<lparr>dev = KEYBOARD, seq = 2, timestamp = 20\<rparr>] \<and>
   pc (exec (Controller ''s'' ''d'') shutdown_at_wait) =
     Servicing \<lparr>dev = KEYBOARD, seq = 2, timestamp = 20\<rparr> \<and>
   pc (run [Controller ''s'' ''d'', Controller ''s'' ''d'', Controller ''s'' ''d''] shutdown_at_wait)
     = Stopped \<and>
   serviced (run [Controller ''s'' ''d'', Controller ''s'' ''d'', Controller ''s'' ''d'']
               shutdown_at_wait) = [\<lparr>dev = KEYBOARD, seq = 2, timestamp = 20\<rparr>]"
proof -
  have nr: "\<not> running (sh shutdown_at_wait)" by (simp add: shutdown_at_wait_def)
  have ne: "pending (sh shutdown_at_wait) \<noteq> []" by (simp add: shutdown_at_wait_def scenario_A_def)
  have aw: "pc shutdown_at_wait = At_wait" by (simp add: shutdown_at_wait_def)
  have sel: "select_and_remove (sh shutdown_at_wait) =
     Some (\<lparr>dev = KEYBOARD, seq = 2, timestamp = 20\<rparr>,
           sh shutdown_at_wait\<lparr>pending := [\<lparr>dev = PRINTER, seq = 1, timestamp = 10\<rparr>]\<rparr>)"
    by code_simp
  have sv: "serviced shutdown_at_wait = []" by (simp add: shutdown_at_wait_def)
  from shutdown_past_loop_test_serves_one_more [OF nr ne, of "''s''" "''d''" "''s''" "''d''" "''s''" "''d''"] aw sel sv nr ne
  show ?thesis by (simp add: one_more_def)
qed

section \<open>mask and unmask with an unknown device\<close>

text \<open>
  C10. A line whose first word is \<^verbatim>\<open>mask\<close> or \<^verbatim>\<open>unmask\<close> and whose second
  word is none of \<^verbatim>\<open>k\<close>, \<^verbatim>\<open>m\<close>, \<^verbatim>\<open>p\<close> (or is missing) leaves the whole
  shared state, mask flags and pending vector included, as it is, prints the usage
  message, and still calls \<^verbatim>\<open>cv.notify_one()\<close>.
\<close>

theorem unknown_device_changes_nothing_but_notifies:
  assumes tok: "fst (extract_token cmd) = ''mask'' \<or> fst (extract_token cmd) = ''unmask''"
    and w: "fst (extract_token (snd (extract_token cmd))) \<notin> {''k'', ''m'', ''p''}"
  shows "user_command cmd s =
           (s, [Cout (''Unknown device. Use k/m/p.'' @ endl), Notify_one], False)"
proof -
  obtain token ss where e: "extract_token cmd = (token, ss)"
    by (cases "extract_token cmd") auto
  have ne: "cmd \<noteq> []"
  proof
    assume "cmd = []"
    with tok show False by (simp add: extract_token_Nil)
  qed
  from w e have w': "fst (extract_token ss) \<notin> {''k'', ''m'', ''p''}" by simp
  from tok e have "token = ''mask'' \<or> token = ''unmask''" by simp
  then show ?thesis
  proof
    assume "token = ''mask''"
    with ne e mask_command_unknown [OF w', of s] show ?thesis
      by (simp add: user_command_def)
  next
    assume "token = ''unmask''"
    with ne e unmask_command_unknown [OF w', of s] show ?thesis
      by (simp add: user_command_def)
  qed
qed

theorem unknown_device_changes_nothing_but_notifies_witness:
  "fst (extract_token ''mask x'') = ''mask'' \<and>
   fst (extract_token (snd (extract_token ''mask x''))) \<notin> {''k'', ''m'', ''p''} \<and>
   user_command ''mask x'' scenario_B =
     (scenario_B, [Cout (''Unknown device. Use k/m/p.'' @ endl), Notify_one], False)"
proof -
  have t: "fst (extract_token ''mask x'') = ''mask''" by code_simp
  have w: "fst (extract_token (snd (extract_token ''mask x''))) \<notin> {''k'', ''m'', ''p''}"
    by code_simp
  from unknown_device_changes_nothing_but_notifies [OF disjI1 [OF t] w, of scenario_B] t w show ?thesis by simp
qed

section \<open>Which accesses hold the mutex\<close>

lemma quiet_prefix:
  "list_all quiet xs \<Longrightarrow> lock_held_at_accesses True (xs @ ys) = lock_held_at_accesses True ys"
  by (induction xs) (auto simp: quiet_def split: action.splits)

lemma quiet_scan_accesses: "list_all quiet (scan_accesses s)"
  by (simp add: scan_accesses_def quiet_def list_all_iff)

lemma quiet_ignored_messages: "list_all quiet (ignored_messages s)"
  by (simp add: ignored_messages_def quiet_def list_all_iff)

text \<open>The push, the status command and the pass of the controller hold the mutex.\<close>

lemma device_push_holds_lock: "lock_held_at_accesses False (snd (device_push d now s))"
  by (simp add: device_push_def)

lemma status_command_holds_lock: "lock_held_at_accesses False (status_command s)"
  by (simp add: status_command_def)

lemma at_wait_step_holds_lock: "lock_held_at_accesses False (snd (snd (at_wait_step s)))"
  by (simp add: at_wait_step_def quiet_prefix quiet_scan_accesses quiet_ignored_messages
        split: option.splits)

text \<open>The mask and unmask commands write a mask flag without it.\<close>

lemma mask_command_without_lock:
  "which \<in> {''k'', ''m'', ''p''} \<Longrightarrow> \<not> lock_held_at_accesses False (snd (mask_command which s))"
  by (auto simp: mask_command_def)

lemma unmask_command_without_lock:
  "which \<in> {''k'', ''m'', ''p''} \<Longrightarrow> \<not> lock_held_at_accesses False (snd (unmask_command which s))"
  by (auto simp: unmask_command_def)

text \<open>
  C4. The claim is that every access to the pending vector and to the mask flags holds the
  mutex. The line \<^verbatim>\<open>mask k\<close> writes \<^verbatim>\<open>masked_keyboard\<close> with the mutex not
  taken, while \<^verbatim>\<open>status\<close> takes it to read the same flag.
\<close>

theorem mask_command_writes_without_lock:
  "user_command ''mask k'' initial_shared =
     (initial_shared\<lparr>masked_keyboard := True\<rparr>,
      [Touch Wr (Mask_of KEYBOARD), Cout (''Keyboard masked.'' @ endl), Notify_one], False) \<and>
   \<not> lock_held_at_accesses False (fst (snd (user_command ''mask k'' initial_shared))) \<and>
   lock_held_at_accesses False (fst (snd (user_command ''status'' initial_shared)))"
  by code_simp

section \<open>A failure of the log file stays inside append\_log\<close>

lemma best_idx_in_range:
  "best_idx_of s = - 1 \<or> (0 \<le> best_idx_of s \<and> nat (best_idx_of s) < length (pending s))"
proof -
  obtain bi bd bs where b: "scan_from s (scan_bound s) = (bi, bd, bs)"
    by (cases "scan_from s (scan_bound s)") auto
  from scan_from_inv [of s "scan_bound s"] b
  have "bi = - 1 \<or> (0 \<le> bi \<and> nat bi < scan_bound s)"
    by (auto simp: scan_inv_def split: if_splits)
  with scan_bound_le_length [of s] b show ?thesis
    by (auto simp: best_idx_of_def scan_def)
qed

lemma controller_step_not_crashed:
  assumes "\<forall>e. p \<noteq> Crashed e"
  shows "fst (controller_step t1 t2 p s f) \<noteq> Crashed e'"
proof (cases p)
  case At_wait
  then show ?thesis by (auto simp: at_wait_step_def split: option.splits prod.splits)
next
  case (Servicing ev)
  then show ?thesis by (simp add: servicing_step_eq)
next
  case (Crashed e)
  with assms show ?thesis by simp
qed (auto simp: loop_top_step_def timed_wait_step_def)

lemma exec_not_crashed:
  assumes "\<forall>e. pc \<sigma> \<noteq> Crashed e"
  shows "pc (exec a \<sigma>) \<noteq> Crashed e'"
proof (cases a)
  case (Controller t1 t2)
  from controller_step_not_crashed [OF assms, of t1 t2 "sh \<sigma>" "logf \<sigma>" e'] Controller
  show ?thesis by (auto split: prod.splits)
qed (use assms in \<open>auto split: prod.splits\<close>)

lemma run_not_crashed:
  "\<forall>e. pc \<sigma> \<noteq> Crashed e \<Longrightarrow> pc (run steps \<sigma>) \<noteq> Crashed e'"
proof (induction steps arbitrary: e' rule: rev_induct)
  case Nil
  then show ?case by (simp add: run_def)
next
  case (snoc a steps)
  then have "\<forall>e. pc (run steps \<sigma>) \<noteq> Crashed e" by blast
  from exec_not_crashed [OF this] show ?case by (simp add: run_snoc)
qed

lemma controller_step_log_free:
  "fst (controller_step t1 t2 p s f) = fst (controller_step t1 t2 p s f') \<and>
   fst (snd (controller_step t1 t2 p s f)) = fst (snd (controller_step t1 t2 p s f')) \<and>
   snd (snd (snd (controller_step t1 t2 p s f))) = snd (snd (snd (controller_step t1 t2 p s f')))"
  by (cases p) (auto simp: servicing_step_eq split: prod.splits)

lemma exec_core:
  assumes "core \<sigma> = core \<sigma>'"
  shows "core (exec a \<sigma>) = core (exec a \<sigma>')"
proof (cases a)
  case (Device_push d now)
  with assms show ?thesis by (simp add: core_def)
next
  case (Controller t1 t2)
  from controller_step_log_free [of t1 t2 "pc \<sigma>" "sh \<sigma>" "logf \<sigma>" "logf \<sigma>'"] assms Controller
  show ?thesis by (auto simp: core_def split: prod.splits ctrl_pc.splits)
next
  case (User_line cmd)
  with assms show ?thesis by (auto simp: core_def split: prod.splits)
next
  case User_eof
  with assms show ?thesis by (simp add: core_def)
qed

lemma run_core: "core \<sigma> = core \<sigma>' \<Longrightarrow> core (run steps \<sigma>) = core (run steps \<sigma>')"
proof (induction steps arbitrary: \<sigma> \<sigma>')
  case Nil
  then show ?case by (simp add: run_def)
next
  case (Cons a steps)
  from exec_core [OF Cons.prems] have "core (exec a \<sigma>) = core (exec a \<sigma>')" .
  from Cons.IH [OF this] show ?case by (simp add: run_def)
qed

lemma appended_prefix: "\<exists>k. contents (appended line f) = contents f @ take k (line @ [CHR 0x0A])"
proof (cases "openable f")
  case False
  then have "contents (appended line f) = contents f @ take 0 (line @ [CHR 0x0A])"
    by (simp add: appended_def)
  then show ?thesis by blast
next
  case True
  from accepted_prefix [of f "line @ [CHR 0x0A]"] obtain k where
    "accepted f (line @ [CHR 0x0A]) = take k (line @ [CHR 0x0A])" by blast
  with True have "contents (appended line f) = contents f @ take k (line @ [CHR 0x0A])"
    by (simp add: appended_def file_write_def)
  then show ?thesis by blast
qed

text \<open>
  C8. \<^verbatim>\<open>append_log\<close> throws for no file: it returns, leaving the file untouched when
  it cannot be opened and otherwise with as much of the line and its newline added as the
  file takes (all of it when there is no limit). The service routine makes its two calls
  of \<^verbatim>\<open>append_log\<close> and goes back to the top of the loop whatever became of the
  writes; no run of pushes, selections and command
  lines, with any log file, brings the controller to a crash; the shared state, the place
  of the controller and the events pushed and serviced of a run are the same whatever the
  log file is; and the index at which the selection reads and erases is inside the
  pending vector.
\<close>

theorem logging_failure_is_swallowed:
  "append_log line f = Inr (appended line f) \<and>
   (\<exists>k. contents (appended line f) = contents f @ take k (line @ [CHR 0x0A])) \<and>
   appended line (f\<lparr>openable := False\<rparr>) = f\<lparr>openable := False\<rparr> \<and>
   appended line (f\<lparr>openable := True, room := None\<rparr>) =
     f\<lparr>openable := True, room := None, contents := contents f @ line @ [CHR 0x0A]\<rparr> \<and>
   fst (servicing_step ev t1 t2 f) = Loop_top \<and>
   fst (snd (servicing_step ev t1 t2 f)) =
     appended (end_line ev t2) (appended (start_line ev t1) f) \<and>
   (\<forall>e. pc (run steps (initial_sys f)) \<noteq> Crashed e) \<and>
   core (run steps (initial_sys f)) = core (run steps (initial_sys g)) \<and>
   (best_idx_of s = - 1 \<or> (0 \<le> best_idx_of s \<and> nat (best_idx_of s) < length (pending s)))"
proof -
  have i: "\<forall>e. pc (initial_sys f) \<noteq> Crashed e" by (simp add: initial_sys_def)
  have c: "core (initial_sys f) = core (initial_sys g)" by (simp add: core_def initial_sys_def)
  from run_not_crashed [OF i, of steps] run_core [OF c, of steps] append_log_eq [of line f]
    appended_prefix [of line f] best_idx_in_range [of s]
  show ?thesis
    by (simp add: servicing_step_eq appended_def file_write_def accepted_def)
qed

text \<open>
  A log file that takes two more bytes is left with \<^verbatim>\<open>he\<close> of \<^verbatim>\<open>hello\<close>; a
  service routine that logs to it completes.
\<close>

theorem logging_failure_is_swallowed_witness:
  "append_log ''hello'' short_log =
     Inr \<lparr>openable = True, room = Some 0, contents = [CHR ''x'', CHR 0x0A, CHR ''h'', CHR ''e'']\<rparr> \<and>
   append_log ''hello'' (short_log\<lparr>openable := False\<rparr>) = Inr (short_log\<lparr>openable := False\<rparr>) \<and>
   append_log ''hello'' example_log =
     Inr \<lparr>openable = True, room = None, contents = ''hello'' @ [CHR 0x0A]\<rparr> \<and>
   pc (run logged_run (initial_sys short_log)) = Loop_top \<and>
   contents (logf (run logged_run (initial_sys short_log))) =
     [CHR ''x'', CHR 0x0A, CHR ''S'', CHR ''T''] \<and>
   core (run logged_run (initial_sys short_log)) = core (run logged_run (initial_sys example_log))"
proof -
  have a: "appended ''hello'' short_log =
     \<lparr>openable = True, room = Some 0, contents = [CHR ''x'', CHR 0x0A, CHR ''h'', CHR ''e'']\<rparr>"
    by code_simp
  have b: "appended ''hello'' (short_log\<lparr>openable := False\<rparr>) = short_log\<lparr>openable := False\<rparr>"
    by code_simp
  have c: "appended ''hello'' example_log =
     \<lparr>openable = True, room = None, contents = ''hello'' @ [CHR 0x0A]\<rparr>"
    by code_simp
  have d: "pc (run logged_run (initial_sys short_log)) = Loop_top" by code_simp
  have e: "contents (logf (run logged_run (initial_sys short_log))) =
     [CHR ''x'', CHR 0x0A, CHR ''S'', CHR ''T'']" by code_simp
  from logging_failure_is_swallowed
         [where line = "''hello''" and f = short_log and steps = logged_run and g = example_log]
    logging_failure_is_swallowed
         [where line = "''hello''" and f = "short_log\<lparr>openable := False\<rparr>"]
    logging_failure_is_swallowed [where line = "''hello''" and f = example_log] a b c d e
  show ?thesis by simp
qed

end
